theory Spec2Isabelle
  imports Main "HOL-Library.Sublist"
begin

section \<open>Python values, exceptions and generators\<close>

text \<open>
  The values that reach \<open>flatten\<close> and \<open>isplit\<close>: \<open>None\<close>, integers, text, and the two
  finite containers of the doctests (lists and tuples). Text is a list of characters;
  a character is a code point below 256.
\<close>

datatype pyval =
    PNone
  | PInt int
  | PStr string
  | PList "pyval list"
  | PTuple "pyval list"

datatype pytype = NoneType | IntType | StrType | ListType | TupleType

fun type_of :: "pyval \<Rightarrow> pytype" where
  "type_of PNone = NoneType"
| "type_of (PInt n) = IntType"
| "type_of (PStr s) = StrType"
| "type_of (PList xs) = ListType"
| "type_of (PTuple xs) = TupleType"

text \<open>\<open>isinstance(v, ts)\<close> for a tuple \<open>ts\<close> of the classes above (none is a subclass of another).\<close>

definition isinstance :: "pyval \<Rightarrow> pytype list \<Rightarrow> bool" where
  "isinstance v ts = (type_of v \<in> set ts)"

text \<open>\<open>six.string_types\<close> and \<open>six.integer_types\<close> on Python 3.\<close>

definition string_types :: "pytype list" where
  "string_types = [StrType]"

definition integer_types :: "pytype list" where
  "integer_types = [IntType]"

text \<open>
  Exceptions. \<open>OtherError name\<close> stands for an exception whose class is none of
  \<open>TypeError\<close>, \<open>ValueError\<close>, \<open>StopIteration\<close> and \<open>RuntimeError\<close>, nor a subclass of
  one of them.
\<close>

datatype exc = TypeError | ValueError | StopIteration | RuntimeError | OtherError string

text \<open>
  \<open>iter(v)\<close>: the items the iterator will produce, or \<open>TypeError\<close> when \<open>v\<close> is not
  iterable. Iterating over text produces its characters as one-character texts.
\<close>

fun iter :: "pyval \<Rightarrow> exc + pyval list" where
  "iter (PStr s) = Inr (map (\<lambda>c. PStr [c]) s)"
| "iter (PList xs) = Inr xs"
| "iter (PTuple xs) = Inr xs"
| "iter PNone = Inl TypeError"
| "iter (PInt n) = Inl TypeError"

text \<open>
  A generator is denoted by the run of its body: the values it yields, in order, and how
  the body ends (\<open>None\<close>: it returns; \<open>Some e\<close>: it raises \<open>e\<close>). Calling a generator
  function runs nothing of the body: the call returns the generator object, and each
  \<open>next\<close> takes the next event of the run; \<open>next\<close> on a generator whose body has
  returned raises \<open>StopIteration\<close>.
\<close>

type_synonym 'a run = "'a list \<times> exc option"

datatype 'a call = CallRaises exc | Generator "'a run"

datatype 'a pull = Yielded 'a | Raised exc

fun yield :: "'a \<Rightarrow> 'a run \<Rightarrow> 'a run" where
  "yield x (xs, e) = (x # xs, e)"

fun next_gen :: "'a run \<Rightarrow> 'a pull \<times> 'a run" where
  "next_gen (x # xs, e) = (Yielded x, (xs, e))"
| "next_gen ([], Some e) = (Raised e, ([], None))"
| "next_gen ([], None) = (Raised StopIteration, ([], None))"

text \<open>
  An exception that leaves the frame of a generator (Python 3.7 and later): a
  \<open>StopIteration\<close> raised inside the body reaches the consumer as \<open>RuntimeError\<close>; every
  other exception reaches it unchanged.
\<close>

definition leave_generator :: "exc \<Rightarrow> exc" where
  "leave_generator e = (if e = StopIteration then RuntimeError else e)"

definition first_pull :: "'a call \<Rightarrow> exc + 'a pull" where
  "first_pull c = (case c of CallRaises e \<Rightarrow> Inl e | Generator r \<Rightarrow> Inr (fst (next_gen r)))"

section \<open>flatten\<close>

text \<open>
  The body of the \<open>try\<close> of \<open>flatten\<close> (lines 101 to 106): \<open>Inl e\<close> when it raises \<open>e\<close>,
  \<open>Inr items\<close> when \<open>iter(thing)\<close> succeeded. \<open>enforce_scalar\<close> is \<open>None\<close> when the argument
  is not callable, and otherwise a function that returns a truth value or raises.
\<close>

definition try_body ::
  "pytype list \<Rightarrow> (pyval \<Rightarrow> exc + bool) option \<Rightarrow> pyval \<Rightarrow> exc + pyval list" where
  "try_body protected_iterables enforce_scalar thing =
     (if isinstance thing protected_iterables then Inl ValueError
      else (case enforce_scalar of
              None \<Rightarrow> iter thing
            | Some p \<Rightarrow>
                (case p thing of
                   Inl e \<Rightarrow> Inl e
                 | Inr True \<Rightarrow> Inl ValueError
                 | Inr False \<Rightarrow> iter thing)))"

fun vsize :: "pyval \<Rightarrow> nat" where
  "vsize (PList xs) = 2 + sum_list (map vsize xs)"
| "vsize (PTuple xs) = 2 + sum_list (map vsize xs)"
| "vsize v = 1"

lemma vsize_pos: "0 < vsize v"
  by (cases v) simp_all

definition stack_size :: "pyval list \<times> pyval list list \<Rightarrow> nat" where
  "stack_size s =
     sum_list (map vsize (fst s)) + sum_list (map (\<lambda>l. 1 + sum_list (map vsize l)) (snd s))"

lemma try_body_vsize:
  "try_body (string_types @ ps) enf thing = Inr items \<Longrightarrow>
     2 + sum_list (map vsize items) \<le> vsize thing"
  by (cases thing)
     (auto simp: try_body_def isinstance_def string_types_def
           split: if_splits option.splits sum.splits bool.splits)

text \<open>
  The \<open>while True\<close> loop of \<open>flatten\<close>. \<open>it\<close> is what the current iterator still has to
  produce, \<open>iterators\<close> the stack (\<open>append\<close> and \<open>pop\<close> work at its end). The tuple
  \<open>six.string_types + tuple(protected_iterables)\<close> of line 90 is formed from the caller's
  \<open>protected_iterables\<close>. An exception of the \<open>try\<close> that line 107 does not catch leaves the
  generator; none of the \<open>try\<close> statements of the loop encloses line 103, so this holds of
  a \<open>StopIteration\<close> raised by \<open>enforce_scalar\<close> too.
\<close>

function flatten_loop ::
  "pytype list \<Rightarrow> (pyval \<Rightarrow> exc + bool) option \<Rightarrow> pyval list \<Rightarrow> pyval list list \<Rightarrow> pyval run"
  where
  "flatten_loop protected_iterables enforce_scalar [] iterators =
     (if iterators = [] then ([], None)
      else flatten_loop protected_iterables enforce_scalar (last iterators) (butlast iterators))"
| "flatten_loop protected_iterables enforce_scalar (thing # it) iterators =
     (case try_body (string_types @ protected_iterables) enforce_scalar thing of
        Inl e \<Rightarrow>
          if e = TypeError \<or> e = ValueError
          then yield thing (flatten_loop protected_iterables enforce_scalar it iterators)
          else ([], Some (leave_generator e))
      | Inr items \<Rightarrow>
          flatten_loop protected_iterables enforce_scalar items (iterators @ [it]))"
  by pat_completeness auto
termination
proof (relation "measure (\<lambda>(ps, enf, it, iterators). stack_size (it, iterators))", goal_cases)
  case 1
  show ?case by simp
next
  case (2 ps enf iterators)
  then obtain b l where "iterators = b @ [l]"
    by (cases iterators rule: rev_cases) auto
  then show ?case by (simp add: stack_size_def)
next
  case (3 ps enf thing it iterators e)
  show ?case by (simp add: stack_size_def vsize_pos)
next
  case (4 ps enf thing it iterators items)
  from try_body_vsize [OF 4] show ?case by (simp add: stack_size_def)
qed

definition flatten_body ::
  "pyval \<Rightarrow> pytype list \<Rightarrow> (pyval \<Rightarrow> exc + bool) option \<Rightarrow> pyval run" where
  "flatten_body thing protected_iterables enforce_scalar =
     (case iter thing of
        Inl e \<Rightarrow> ([], Some e)
      | Inr it \<Rightarrow> flatten_loop protected_iterables enforce_scalar it [])"

definition flatten ::
  "pyval \<Rightarrow> pytype list \<Rightarrow> (pyval \<Rightarrow> exc + bool) option \<Rightarrow> pyval call" where
  "flatten thing protected_iterables enforce_scalar =
     Generator (flatten_body thing protected_iterables enforce_scalar)"

section \<open>isplit\<close>

text \<open>
  \<open>char.isspace()\<close> for a one-character text, on the code points below 256: the ASCII
  controls 9 to 13 and 28 to 31, the space, NEL (133) and the no-break space (160).
\<close>

definition isspace :: "char \<Rightarrow> bool" where
  "isspace c =
     (let n = (of_char c :: nat)
      in (9 \<le> n \<and> n \<le> 13) \<or> (28 \<le> n \<and> n \<le> 32) \<or> n = 133 \<or> n = 160)"

text \<open>
  The loop of the whitespace mode (lines 263 to 276). \<open>chunk.extend(it)\<close> exhausts the
  iterator, so the \<open>continue\<close> after it leaves the loop through its \<open>else\<close> clause.
\<close>

fun ws_loop :: "int \<Rightarrow> string \<Rightarrow> int \<Rightarrow> string \<Rightarrow> string list" where
  "ws_loop maxsplit chunk splitcount [] = (if chunk \<noteq> [] then [chunk] else [])"
| "ws_loop maxsplit chunk splitcount (char # it) =
     (if \<not> isspace char then ws_loop maxsplit (chunk @ [char]) splitcount it
      else if chunk \<noteq> [] then
        (if splitcount = maxsplit then ws_loop maxsplit (chunk @ [char] @ it) splitcount []
         else chunk # ws_loop maxsplit [] (splitcount + 1) it)
      else ws_loop maxsplit chunk splitcount it)"

text \<open>
  The state of the loop of the separator mode (lines 285 to 302). \<open>deque\<close> holds the
  items of the deque created on line 286, whose \<open>maxlen\<close> is \<open>len(sep) + 1\<close>. The name
  \<open>window\<close> is bound to that deque until line 294 binds it to a new tuple: \<open>rebound\<close> is
  \<open>None\<close> before, and holds the tuple after. \<open>it\<close> is what the iterator over the text
  still has to produce.
\<close>

record scan =
  deque :: "char list"
  rebound :: "char list option"
  chunk :: "char list"
  splitcount :: int
  it :: "char list"

text \<open>The items of what the name \<open>window\<close> is bound to.\<close>

definition window :: "scan \<Rightarrow> char list" where
  "window st = (case rebound st of None \<Rightarrow> deque st | Some t \<Rightarrow> t)"

text \<open>\<open>deque.append\<close> on a deque with a \<open>maxlen\<close>: a full deque discards its leftmost item.\<close>

definition deque_append :: "nat \<Rightarrow> char list \<Rightarrow> char \<Rightarrow> char list" where
  "deque_append maxlen w c = (if length w = maxlen then tl w @ [c] else w @ [c])"

text \<open>
  One pass through the body of the \<open>for\<close> loop (lines 288 to 299), for the character
  \<open>char\<close> just taken from the iterator: the field it yields, if any, and the next state.
  A pass works on the deque: line 294 exhausts the iterator, so no pass follows it.
\<close>

definition sep_body :: "string \<Rightarrow> int \<Rightarrow> char \<Rightarrow> scan \<Rightarrow> string option \<times> scan" where
  "sep_body sep maxsplit char st =
     (let w = deque_append (length sep + 1) (deque st) char;
          st1 = (if length w = length sep + 1
                 then st\<lparr>deque := tl w, chunk := chunk st @ [hd w]\<rparr>
                 else st\<lparr>deque := w\<rparr>)
      in if deque st1 = sep then
           (if splitcount st1 = maxsplit
            then (None, st1\<lparr>rebound := Some (deque st1 @ it st1), it := []\<rparr>)
            else (Some (chunk st1),
                  st1\<lparr>chunk := [], splitcount := splitcount st1 + 1, deque := []\<rparr>))
         else (None, st1))"

lemma sep_body_it: "sep_body sep maxsplit char st = (y, st') \<Longrightarrow> length (it st') \<le> length (it st)"
  by (auto simp: sep_body_def Let_def split: if_splits)

text \<open>The \<open>for\<close> loop with its \<open>else\<close> clause: the fields yielded from state \<open>st\<close> on.\<close>

function sep_loop :: "string \<Rightarrow> int \<Rightarrow> scan \<Rightarrow> string list" where
  "sep_loop sep maxsplit st =
     (case it st of
        [] \<Rightarrow> [chunk st @ window st]
      | char # rest \<Rightarrow>
          (case sep_body sep maxsplit char (st\<lparr>it := rest\<rparr>) of
             (None, st') \<Rightarrow> sep_loop sep maxsplit st'
           | (Some field, st') \<Rightarrow> field # sep_loop sep maxsplit st'))"
  by pat_completeness auto
termination
proof (relation "measure (\<lambda>(sep, maxsplit, st). length (it st))", goal_cases)
  case 1
  show ?case by simp
next
  case (2 sep maxsplit st char rest y st')
  from sep_body_it [OF 2(2) [symmetric]] 2(1) show ?case by simp
next
  case (3 sep maxsplit st char rest y st' field)
  from sep_body_it [OF 3(2) [symmetric]] 3(1) show ?case by simp
qed

text \<open>The states in which the loop stands at the head of each pass and when it ends.\<close>

function sep_states :: "string \<Rightarrow> int \<Rightarrow> scan \<Rightarrow> scan list" where
  "sep_states sep maxsplit st =
     st # (case it st of
             [] \<Rightarrow> []
           | char # rest \<Rightarrow>
               sep_states sep maxsplit (snd (sep_body sep maxsplit char (st\<lparr>it := rest\<rparr>))))"
  by pat_completeness auto
termination
proof (relation "measure (\<lambda>(sep, maxsplit, st). length (it st))", goal_cases)
  case 1
  show ?case by simp
next
  case (2 sep maxsplit st char rest)
  have "length (it (snd (sep_body sep maxsplit char (st\<lparr>it := rest\<rparr>)))) \<le> length rest"
    using sep_body_it [of sep maxsplit char "st\<lparr>it := rest\<rparr>"] by (simp add: prod_eq_iff)
  with 2 show ?case by simp
qed

declare sep_loop.simps [simp del] sep_states.simps [simp del]

definition scan_init :: "string \<Rightarrow> scan" where
  "scan_init text = \<lparr>deque = [], rebound = None, chunk = [], splitcount = 0, it = text\<rparr>"

text \<open>
  The body of \<open>isplit\<close>. The checks of lines 249 to 255 come first; those on \<open>sep\<close>
  (lines 278 to 282) are reached when \<open>sep\<close> is not \<open>None\<close>.
\<close>

definition isplit_body :: "pyval \<Rightarrow> pyval \<Rightarrow> pyval \<Rightarrow> string run" where
  "isplit_body text sep maxsplit =
     (if \<not> isinstance text string_types then ([], Some TypeError)
      else if maxsplit \<noteq> PNone \<and> \<not> isinstance maxsplit integer_types then ([], Some TypeError)
      else
        (let m = (case maxsplit of PInt n \<Rightarrow> n | _ \<Rightarrow> - 1);
             t = (case text of PStr s \<Rightarrow> s | _ \<Rightarrow> [])
         in if sep = PNone then (ws_loop m [] 0 t, None)
            else if \<not> isinstance sep string_types then ([], Some TypeError)
            else if sep = PStr [] then ([], Some ValueError)
            else (sep_loop (case sep of PStr d \<Rightarrow> d | _ \<Rightarrow> []) m (scan_init t), None)))"

definition isplit :: "pyval \<Rightarrow> pyval \<Rightarrow> pyval \<Rightarrow> string call" where
  "isplit text sep maxsplit = Generator (isplit_body text sep maxsplit)"

section \<open>The eager split that the specification refers to\<close>

text \<open>
  These definitions follow the specification's words and \<open>str.split\<close>, not the code of
  \<open>isplit\<close>. A limit \<open>None\<close> is no limit; \<open>Some n\<close> allows \<open>n\<close> more splits.
\<close>

fun fewer :: "nat option \<Rightarrow> nat option" where
  "fewer None = None"
| "fewer (Some n) = Some (n - 1)"

text \<open>
  Splitting at runs of whitespace: leading whitespace is skipped; when no split is left
  the rest of the text, up to its end, is the last field.
\<close>

function split_ws :: "nat option \<Rightarrow> string \<Rightarrow> string list" where
  "split_ws limit [] = []"
| "split_ws limit (c # cs) =
     (if isspace c then split_ws limit cs
      else if limit = Some 0 then [c # cs]
      else (c # takeWhile (\<lambda>x. \<not> isspace x) cs)
             # split_ws (fewer limit) (dropWhile (\<lambda>x. \<not> isspace x) cs))"
  by pat_completeness auto
termination
  by (relation "measure (\<lambda>(limit, text). length text)")
     (simp_all add: length_dropWhile_le less_Suc_eq_le)

text \<open>The leftmost occurrence of \<open>sep\<close> in a text: what stands before it and after it.\<close>

fun find_sep :: "string \<Rightarrow> string \<Rightarrow> (string \<times> string) option" where
  "find_sep sep [] = None"
| "find_sep sep (c # cs) =
     (if prefix sep (c # cs) then Some ([], drop (length sep) (c # cs))
      else map_option (\<lambda>(before, after). (c # before, after)) (find_sep sep cs))"

lemma find_sep_length:
  "find_sep sep text = Some (before, after) \<Longrightarrow> length after + length sep \<le> length text"
proof (induction "text" arbitrary: before)
  case Nil
  then show ?case by simp
next
  case (Cons c cs)
  show ?case
  proof (cases "prefix sep (c # cs)")
    case True
    with Cons.prems show ?thesis by (auto dest: prefix_length_le)
  next
    case False
    with Cons.prems obtain b where "find_sep sep cs = Some (b, after)" by auto
    from Cons.IH [OF this] show ?thesis by simp
  qed
qed

text \<open>
  Splitting at a separator that is not empty: the field before the leftmost occurrence,
  then the split of what follows it; when no split is left, or the separator does not
  occur, the text is the last field.
\<close>

function split_sep :: "nat option \<Rightarrow> string \<Rightarrow> string \<Rightarrow> string list" where
  "split_sep limit sep text =
     (if limit = Some 0 \<or> sep = [] then [text]
      else (case find_sep sep text of
              None \<Rightarrow> [text]
            | Some (before, after) \<Rightarrow> before # split_sep (fewer limit) sep after))"
  by pat_completeness auto
termination
proof (relation "measure (\<lambda>(limit, sep, text). length text)", goal_cases)
  case 1
  show ?case by simp
next
  case (2 limit sep t x before after)
  then have "find_sep sep t = Some (before, after)" and "sep \<noteq> []" by simp_all
  from find_sep_length [OF this(1)] this(2) show ?case by (cases sep) simp_all
qed

declare split_sep.simps [simp del]

text \<open>
  \<open>text.split(sep, maxsplit)\<close>, with \<open>None\<close> for an argument left out: no separator means
  runs of whitespace, and no or a negative \<open>maxsplit\<close> means no limit.
\<close>

definition str_split :: "string \<Rightarrow> string option \<Rightarrow> int option \<Rightarrow> string list" where
  "str_split text sep maxsplit =
     (let limit = (case maxsplit of
                     None \<Rightarrow> None
                   | Some n \<Rightarrow> if n < 0 then None else Some (nat n))
      in case sep of
           None \<Rightarrow> split_ws limit text
         | Some d \<Rightarrow> split_sep limit d text)"

text \<open>An optional argument as the Python value that is passed.\<close>

fun opt_str :: "string option \<Rightarrow> pyval" where
  "opt_str None = PNone"
| "opt_str (Some s) = PStr s"

fun opt_int :: "int option \<Rightarrow> pyval" where
  "opt_int None = PNone"
| "opt_int (Some n) = PInt n"

section \<open>Notions used in the proofs about isplit\<close>

text \<open>
  The splits that are left when \<open>splitcount\<close> fields have been yielded: no limit when
  \<open>maxsplit\<close> is negative.
\<close>

definition remaining :: "int \<Rightarrow> int \<Rightarrow> nat option" where
  "remaining m k = (if m < 0 then None else Some (nat (m - k)))"

text \<open>
  What holds of the deque and the accumulator at the head of every pass of the separator
  loop: the name \<open>window\<close> is bound to the deque, the deque is the end of what was read
  since the last field, as long as the separator at most, and the separator has not
  occurred in what was read.
\<close>

definition scan_inv :: "string \<Rightarrow> scan \<Rightarrow> bool" where
  "scan_inv sep st =
     (rebound st = None
      \<and> length (deque st) = min (length (chunk st @ deque st)) (length sep)
      \<and> find_sep sep (chunk st @ deque st) = None)"

section \<open>The reading of a nested structure that the specification describes\<close>

text \<open>
  These definitions follow the words of the specification, not the code: a value is
  atomic when it is text, when its type is protected, when the predicate holds of it, or
  when no iterator over it can be obtained; the leaves of a value are the atomic values
  met when it is read from left to right, depth first.
\<close>

definition spec_atomic :: "pytype list \<Rightarrow> (pyval \<Rightarrow> bool) option \<Rightarrow> pyval \<Rightarrow> bool" where
  "spec_atomic protected_types protect_predicate v =
     ((case v of PStr s \<Rightarrow> True | _ \<Rightarrow> False)
      \<or> type_of v \<in> set protected_types
      \<or> (case protect_predicate of Some p \<Rightarrow> p v | None \<Rightarrow> False)
      \<or> (case iter v of Inl e \<Rightarrow> True | Inr items \<Rightarrow> False))"

fun spec_leaves :: "pytype list \<Rightarrow> (pyval \<Rightarrow> bool) option \<Rightarrow> pyval \<Rightarrow> pyval list" where
  "spec_leaves ps p (PList xs) =
     (if spec_atomic ps p (PList xs) then [PList xs] else concat (map (spec_leaves ps p) xs))"
| "spec_leaves ps p (PTuple xs) =
     (if spec_atomic ps p (PTuple xs) then [PTuple xs] else concat (map (spec_leaves ps p) xs))"
| "spec_leaves ps p v = [v]"

text \<open>A predicate that returns a truth value on every argument, as \<open>flatten\<close> receives it.\<close>

definition total_predicate ::
  "(pyval \<Rightarrow> bool) option \<Rightarrow> (pyval \<Rightarrow> exc + bool) option" where
  "total_predicate p = map_option (\<lambda>f v. Inr (f v)) p"

text \<open>A scalar of the value universe: not a list and not a tuple.\<close>

fun is_scalar :: "pyval \<Rightarrow> bool" where
  "is_scalar (PList xs) = False"
| "is_scalar (PTuple xs) = False"
| "is_scalar v = True"

text \<open>A predicate that raises \<open>e\<close> when applied to \<open>x\<close> and returns false otherwise.\<close>

definition raising_on :: "pyval \<Rightarrow> exc \<Rightarrow> pyval \<Rightarrow> exc + bool" where
  "raising_on x e v = (if v = x then Inl e else Inr False)"

section \<open>Properties of flatten\<close>

lemma try_body_text: "try_body (string_types @ ps) enf (PStr s) = Inl ValueError"
  by (simp add: try_body_def isinstance_def string_types_def)

lemma flatten_loop_chars:
  "flatten_loop ps enf (map (\<lambda>c. PStr [c]) s) [] = (map (\<lambda>c. PStr [c]) s, None)"
  by (induction s) (simp_all add: try_body_text)

lemma try_body_atomic:
  assumes "spec_atomic ps p thing"
  shows "try_body (string_types @ ps) (total_predicate p) thing = Inl ValueError
       \<or> try_body (string_types @ ps) (total_predicate p) thing = Inl TypeError"
  using assms
  by (cases thing; cases p)
     (auto simp: spec_atomic_def try_body_def total_predicate_def isinstance_def string_types_def
           split: bool.splits)

lemma try_body_not_atomic:
  assumes "\<not> spec_atomic ps p thing"
  shows "(\<exists>xs. thing = PList xs \<and> try_body (string_types @ ps) (total_predicate p) thing = Inr xs)
       \<or> (\<exists>xs. thing = PTuple xs \<and> try_body (string_types @ ps) (total_predicate p) thing = Inr xs)"
  using assms
  by (cases thing; cases p)
     (auto simp: spec_atomic_def try_body_def total_predicate_def isinstance_def string_types_def
           split: bool.splits)

lemma spec_leaves_atomic: "spec_atomic ps p v \<Longrightarrow> spec_leaves ps p v = [v]"
  by (cases v) simp_all

lemma flatten_loop_leaves:
  "flatten_loop ps (total_predicate p) rest iterators =
     (concat (map (spec_leaves ps p) rest)
        @ concat (map (\<lambda>l. concat (map (spec_leaves ps p) l)) (rev iterators)), None)"
proof (induction ps "total_predicate p" rest iterators rule: flatten_loop.induct)
  case (1 ps iterators)
  show ?case
  proof (cases "iterators = []")
    case True
    then show ?thesis by simp
  next
    case False
    then obtain b l where bl: "iterators = b @ [l]"
      by (cases iterators rule: rev_cases) auto
    with 1 False show ?thesis by simp
  qed
next
  case (2 ps thing rest iterators)
  show ?case
  proof (cases "spec_atomic ps p thing")
    case True
    from try_body_atomic [OF True] 2(1) True show ?thesis
      by (auto simp: spec_leaves_atomic)
  next
    case False
    from try_body_not_atomic [OF False] 2(2) False show ?thesis
      by auto
  qed
qed

lemma scalar_leaves: "is_scalar v \<Longrightarrow> spec_leaves ps p v = [v]"
  by (cases v) simp_all

lemma scalars_leaves: "\<forall>v \<in> set S. is_scalar v \<Longrightarrow> concat (map (spec_leaves ps p) S) = S"
  by (induction S) (simp_all add: scalar_leaves)

text \<open>
  C2. For every nested structure, every tuple of protected types and every predicate,
  \<open>flatten\<close> yields the atomic values of the items of its argument, read from left to
  right and depth first, and then ends; an argument that is not iterable makes the first
  pull raise. So a list or a tuple of scalars is yielded as it is.
\<close>

theorem flatten_depth_first:
  "flatten thing ps (total_predicate p) =
     Generator (case iter thing of
                  Inl e \<Rightarrow> ([], Some e)
                | Inr items \<Rightarrow> (concat (map (spec_leaves ps p) items), None))
   \<and> ((\<forall>v \<in> set S. is_scalar v) \<longrightarrow>
        flatten (PList S) ps (total_predicate p) = Generator (S, None)
        \<and> flatten (PTuple S) ps (total_predicate p) = Generator (S, None))"
  by (cases "iter thing")
     (simp_all add: flatten_def flatten_body_def flatten_loop_leaves scalars_leaves)

theorem flatten_depth_first_witness:
  "flatten (PList [PTuple [PInt 1, PInt 2], PList [PInt 3, PTuple [PInt 4], PInt 5], PInt 6])
      [TupleType] (total_predicate None) =
     Generator ([PTuple [PInt 1, PInt 2], PInt 3, PTuple [PInt 4], PInt 5, PInt 6], None)
   \<and> flatten (PList [PInt 1, PStr ''ab'', PNone]) [] (total_predicate None) =
     Generator ([PInt 1, PStr ''ab'', PNone], None)"
  using flatten_depth_first
          [of "PList [PTuple [PInt 1, PInt 2], PList [PInt 3, PTuple [PInt 4], PInt 5], PInt 6]"
              "[TupleType]" None "[]"]
        flatten_depth_first [of PNone "[]" None "[PInt 1, PStr ''ab'', PNone]"]
  by (simp add: spec_atomic_def)

text \<open>
  C3. Whatever the protected types and the predicate, a text pulled during the traversal
  is yielded as it is and the traversal goes on with the item after it: its characters
  are never visited. The doctest of the docstring is an instance.
\<close>

theorem flatten_text_protected:
  "flatten_loop ps enf (PStr s # rest) iterators = yield (PStr s) (flatten_loop ps enf rest iterators)
   \<and> flatten (PList [PStr ''a'', PList [PStr ''sequence'', PList [PStr ''of''], PStr ''strings'']])
        [] None =
      Generator ([PStr ''a'', PStr ''sequence'', PStr ''of'', PStr ''strings''], None)"
  by (simp add: flatten_def flatten_body_def try_body_def isinstance_def string_types_def)

text \<open>
  C7. For an argument that is not iterable, the call of \<open>flatten\<close> returns a generator
  and raises nothing; the first pull raises \<open>TypeError\<close>.
\<close>

theorem flatten_not_iterable:
  assumes "iter thing = Inl TypeError"
  shows "(\<exists>r. flatten thing ps enf = Generator r)
       \<and> first_pull (flatten thing ps enf) = Inr (Raised TypeError)"
  using assms by (simp add: flatten_def flatten_body_def first_pull_def)

theorem flatten_not_iterable_witness:
  "iter (PInt 7) = Inl TypeError
   \<and> (\<exists>r. flatten (PInt 7) [] None = Generator r)
   \<and> first_pull (flatten (PInt 7) [] None) = Inr (Raised TypeError)"
  using flatten_not_iterable [of "PInt 7" "[]" None] by simp

text \<open>
  C9. A text passed as the top-level argument is iterated: \<open>flatten\<close> yields its
  characters one by one, each as a one-character text.
\<close>

theorem flatten_top_level_text:
  "flatten (PStr s) ps enf = Generator (map (\<lambda>c. PStr [c]) s, None)"
  by (simp add: flatten_def flatten_body_def flatten_loop_chars)

text \<open>
  C10, as amended. When the predicate is applied to a pulled value (the value is not of
  a protected type) and raises \<open>TypeError\<close> or \<open>ValueError\<close>, the value is yielded as it is
  and the traversal goes on with the item after it. When it raises anything else, nothing
  is yielded for the value and the generator raises at this point: the exception of the
  predicate, unchanged, unless that is \<open>StopIteration\<close>, in whose place the consumer
  receives \<open>RuntimeError\<close>.
\<close>

theorem flatten_predicate_raises:
  assumes "\<not> isinstance thing (string_types @ ps)" and "p thing = Inl e"
  shows "(e = TypeError \<or> e = ValueError \<longrightarrow>
            flatten_loop ps (Some p) (thing # rest) iterators =
              (thing # fst (flatten_loop ps (Some p) rest iterators),
               snd (flatten_loop ps (Some p) rest iterators)))
       \<and> (e \<noteq> TypeError \<and> e \<noteq> ValueError \<and> e \<noteq> StopIteration \<longrightarrow>
            flatten_loop ps (Some p) (thing # rest) iterators = ([], Some e))
       \<and> (e = StopIteration \<longrightarrow>
            flatten_loop ps (Some p) (thing # rest) iterators = ([], Some RuntimeError))"
  using assms
  by (cases "flatten_loop ps (Some p) rest iterators")
     (simp add: try_body_def leave_generator_def)

theorem flatten_predicate_raises_witness:
  "flatten_loop [] (Some (raising_on (PInt 1) ValueError)) [PInt 1, PInt 3] [] =
     ([PInt 1, PInt 3], None)
   \<and> flatten_loop [] (Some (raising_on (PInt 1) (OtherError ''KeyError''))) [PInt 1, PInt 3] [] =
     ([], Some (OtherError ''KeyError''))
   \<and> flatten_loop [] (Some (raising_on (PInt 1) StopIteration)) [PInt 1, PInt 3] [] =
     ([], Some RuntimeError)"
proof -
  have rest: "flatten_loop [] (Some (raising_on (PInt 1) ValueError)) [PInt 3] [] =
      ([PInt 3], None)"
    by (simp add: try_body_def raising_on_def isinstance_def string_types_def)
  show ?thesis
    using flatten_predicate_raises
            [of "PInt 1" "[]" "raising_on (PInt 1) ValueError" ValueError "[PInt 3]" "[]"]
          flatten_predicate_raises
            [of "PInt 1" "[]" "raising_on (PInt 1) (OtherError ''KeyError'')"
                "OtherError ''KeyError''" "[PInt 3]" "[]"]
          flatten_predicate_raises
            [of "PInt 1" "[]" "raising_on (PInt 1) StopIteration" StopIteration "[PInt 3]" "[]"]
          rest
    by (simp add: raising_on_def isinstance_def string_types_def)
qed

text \<open>
  A predicate that raises \<open>StopIteration\<close> on the first item: the exception does not reach
  the consumer, whose first pull raises \<open>RuntimeError\<close>.
\<close>

theorem flatten_predicate_stop_iteration:
  "first_pull (flatten (PList [PInt 1, PInt 3]) [] (Some (raising_on (PInt 1) StopIteration))) =
     Inr (Raised RuntimeError)
   \<and> first_pull (flatten (PList [PInt 1, PInt 3]) [] (Some (raising_on (PInt 1) StopIteration))) \<noteq>
     Inr (Raised StopIteration)"
  by (simp add: first_pull_def flatten_def flatten_body_def try_body_def raising_on_def
        isinstance_def string_types_def leave_generator_def)

section \<open>Properties of isplit\<close>

lemma ws_loop_negative:
  "m < 0 \<Longrightarrow> m' < 0 \<Longrightarrow> 0 \<le> k \<Longrightarrow> ws_loop m acc k rest = ws_loop m' acc k rest"
  by (induction rest arbitrary: acc k) auto

lemma sep_body_negative:
  "m < 0 \<Longrightarrow> m' < 0 \<Longrightarrow> 0 \<le> splitcount st \<Longrightarrow> sep_body sep m c st = sep_body sep m' c st"
  by (simp add: sep_body_def Let_def)

lemma sep_body_splitcount:
  "sep_body sep m c st = (y, st') \<Longrightarrow> 0 \<le> splitcount st \<Longrightarrow> 0 \<le> splitcount st'"
  by (auto simp: sep_body_def Let_def split: if_splits)

lemma sep_loop_negative:
  "m < 0 \<Longrightarrow> m' < 0 \<Longrightarrow> 0 \<le> splitcount st \<Longrightarrow> sep_loop sep m st = sep_loop sep m' st"
proof (induction "length (it st)" arbitrary: st rule: less_induct)
  case less
  show ?case
  proof (cases "it st")
    case Nil
    then show ?thesis by (simp add: sep_loop.simps [of sep m st] sep_loop.simps [of sep m' st])
  next
    case (Cons c rest)
    obtain y st' where b: "sep_body sep m c (st\<lparr>it := rest\<rparr>) = (y, st')"
      by (cases "sep_body sep m c (st\<lparr>it := rest\<rparr>)")
    have b': "sep_body sep m' c (st\<lparr>it := rest\<rparr>) = (y, st')"
      using sep_body_negative [of m m' "st\<lparr>it := rest\<rparr>" sep c] less.prems b by simp
    have "length (it st') < length (it st)"
      using sep_body_it [OF b] Cons by simp
    moreover have "0 \<le> splitcount st'"
      using sep_body_splitcount [OF b] less.prems by simp
    ultimately have "sep_loop sep m st' = sep_loop sep m' st'"
      using less.hyps less.prems by blast
    then show ?thesis
      using Cons b b'
      by (cases y) (simp_all add: sep_loop.simps [of sep m st] sep_loop.simps [of sep m' st])
  qed
qed

text \<open>
  C5. A negative \<open>maxsplit\<close> gives the generator that an omitted \<open>maxsplit\<close> gives: the
  same fields, or the same error, for every \<open>text\<close> and \<open>sep\<close>.
\<close>

theorem isplit_negative_maxsplit:
  assumes "n < 0"
  shows "isplit text sep (PInt n) = isplit text sep PNone"
  using assms ws_loop_negative [of n "- 1" 0] sep_loop_negative [of n "- 1" "scan_init t" for t]
  by (simp add: isplit_def isplit_body_def isinstance_def integer_types_def scan_init_def Let_def)

theorem isplit_negative_maxsplit_witness:
  "(- 3 :: int) < 0
   \<and> isplit (PStr ''a,b,,c'') (PStr '','') (PInt (- 3)) = Generator ([''a'', ''b'', '''', ''c''], None)
   \<and> isplit (PStr ''a,b,,c'') (PStr '','') PNone = Generator ([''a'', ''b'', '''', ''c''], None)"
proof -
  have "isplit (PStr ''a,b,,c'') (PStr '','') PNone = Generator ([''a'', ''b'', '''', ''c''], None)"
    by (simp add: isplit_def isplit_body_def isinstance_def string_types_def scan_init_def
          sep_loop.simps sep_body_def deque_append_def window_def Let_def)
  with isplit_negative_maxsplit [of "- 3" "PStr ''a,b,,c''" "PStr '',''"] show ?thesis by simp
qed


lemma sep_loop_end: "it st = [] \<Longrightarrow> sep_loop sep m st = [chunk st @ window st]"
  by (simp add: sep_loop.simps [of sep m st])

lemma sep_states_end: "it st = [] \<Longrightarrow> sep_states sep m st = [st]"
  by (simp add: sep_states.simps [of sep m st])

lemma sep_loop_last:
  "sep_loop sep m st \<noteq> []
   \<and> last (sep_loop sep m st) =
       chunk (last (sep_states sep m st)) @ window (last (sep_states sep m st))
   \<and> it (last (sep_states sep m st)) = []"
proof (induction "length (it st)" arbitrary: st rule: less_induct)
  case less
  show ?case
  proof (cases "it st")
    case Nil
    then show ?thesis by (simp add: sep_loop_end sep_states_end)
  next
    case (Cons c rest)
    obtain y st' where b: "sep_body sep m c (st\<lparr>it := rest\<rparr>) = (y, st')"
      by (cases "sep_body sep m c (st\<lparr>it := rest\<rparr>)")
    have "length (it st') < length (it st)"
      using sep_body_it [OF b] Cons by simp
    from less.hyps [OF this]
    have ih: "sep_loop sep m st' \<noteq> []"
      "last (sep_loop sep m st') =
         chunk (last (sep_states sep m st')) @ window (last (sep_states sep m st'))"
      "it (last (sep_states sep m st')) = []"
      by simp_all
    have nonempty: "sep_states sep m st' \<noteq> []"
      by (simp add: sep_states.simps [of sep m st'])
    have states: "sep_states sep m st = st # sep_states sep m st'"
      using Cons b by (simp add: sep_states.simps [of sep m st])
    have fields: "sep_loop sep m st = (case y of None \<Rightarrow> [] | Some f \<Rightarrow> [f]) @ sep_loop sep m st'"
      using Cons b by (cases y) (simp_all add: sep_loop.simps [of sep m st])
    show ?thesis
      using ih nonempty by (simp add: states fields)
  qed
qed

text \<open>
  C4. In the separator mode the loop always ends by yielding a field, the accumulator
  followed by what is left in the window, also when that field is empty; so the empty
  text gives exactly one empty field. In the whitespace mode the end of the text yields
  the accumulator only when it is not empty; so the empty text gives no field.
\<close>

theorem isplit_final_field:
  "(it st = [] \<longrightarrow> sep_loop sep m st = [chunk st @ window st])
   \<and> sep_loop sep m st \<noteq> []
   \<and> last (sep_loop sep m st) =
        chunk (last (sep_states sep m st)) @ window (last (sep_states sep m st))
   \<and> it (last (sep_states sep m st)) = []
   \<and> ws_loop m acc k [] = (if acc \<noteq> [] then [acc] else [])
   \<and> (d \<noteq> [] \<longrightarrow> isplit (PStr []) (PStr d) (opt_int N) = Generator ([[]], None))
   \<and> isplit (PStr []) PNone (opt_int N) = Generator ([], None)"
proof -
  have "d \<noteq> [] \<longrightarrow> isplit (PStr []) (PStr d) (opt_int N) = Generator ([[]], None)"
    by (cases N)
       (simp_all add: isplit_def isplit_body_def isinstance_def string_types_def
          integer_types_def scan_init_def sep_loop_end window_def Let_def)
  moreover have "isplit (PStr []) PNone (opt_int N) = Generator ([], None)"
    by (cases N)
       (simp_all add: isplit_def isplit_body_def isinstance_def string_types_def
          integer_types_def Let_def)
  ultimately show ?thesis
    using sep_loop_last [of sep m st] by (simp add: sep_loop_end)
qed

theorem isplit_final_field_witness:
  "sep_loop '','' 1 \<lparr>deque = ''b'', rebound = None, chunk = ''a'', splitcount = 0, it = []\<rparr> =
     [''ab'']
   \<and> isplit (PStr []) (PStr '','') (opt_int (Some 1)) = Generator ([[]], None)
   \<and> isplit (PStr []) PNone (opt_int (Some 1)) = Generator ([], None)"
  using isplit_final_field
          [of "\<lparr>deque = ''b'', rebound = None, chunk = ''a'', splitcount = 0, it = []\<rparr>"
              "'',''" 1 "[]" 0 "'',''" "Some 1"]
  by (simp add: window_def)

text \<open>
  C6. The call of \<open>isplit\<close> returns a generator and raises nothing. The first pull
  raises \<open>TypeError\<close> when \<open>text\<close> is not a text, when \<open>maxsplit\<close> is neither \<open>None\<close> nor an
  integer, and when \<open>sep\<close> is neither \<open>None\<close> nor a text; it raises \<open>ValueError\<close> when
  \<open>sep\<close> is the empty text and \<open>text\<close> and \<open>maxsplit\<close> have passed their checks, which
  come first. For all other arguments the generator raises nothing.
\<close>

theorem isplit_validation:
  "(\<exists>r. isplit text sep maxsplit = Generator r)
   \<and> (type_of text \<noteq> StrType \<longrightarrow>
        first_pull (isplit text sep maxsplit) = Inr (Raised TypeError))
   \<and> (maxsplit \<noteq> PNone \<and> type_of maxsplit \<noteq> IntType \<longrightarrow>
        first_pull (isplit text sep maxsplit) = Inr (Raised TypeError))
   \<and> (sep \<noteq> PNone \<and> type_of sep \<noteq> StrType \<longrightarrow>
        first_pull (isplit text sep maxsplit) = Inr (Raised TypeError))
   \<and> (sep = PStr [] \<and> type_of text = StrType \<and> (maxsplit = PNone \<or> type_of maxsplit = IntType) \<longrightarrow>
        first_pull (isplit text sep maxsplit) = Inr (Raised ValueError))
   \<and> (type_of text = StrType \<and> (maxsplit = PNone \<or> type_of maxsplit = IntType)
        \<and> (sep = PNone \<or> (type_of sep = StrType \<and> sep \<noteq> PStr [])) \<longrightarrow>
        (\<exists>fields. isplit text sep maxsplit = Generator (fields, None)))"
  by (auto simp: isplit_def isplit_body_def first_pull_def isinstance_def string_types_def
        integer_types_def Let_def)

theorem isplit_validation_witness:
  "first_pull (isplit (PInt 100500) PNone PNone) = Inr (Raised TypeError)
   \<and> first_pull (isplit (PStr ''lorem ipsum'') PNone (PStr ''non-integer-value'')) =
       Inr (Raised TypeError)
   \<and> first_pull (isplit (PStr ''lorem ipsum'') (PInt 100500) PNone) = Inr (Raised TypeError)
   \<and> first_pull (isplit (PStr ''lorem ipsum'') (PStr []) PNone) = Inr (Raised ValueError)
   \<and> (\<exists>fields. isplit (PStr ''lorem ipsum'') (PStr '','') (PInt 2) = Generator (fields, None))"
  using isplit_validation [of "PInt 100500" PNone PNone]
        isplit_validation [of "PStr ''lorem ipsum''" PNone "PStr ''non-integer-value''"]
        isplit_validation [of "PStr ''lorem ipsum''" "PInt 100500" PNone]
        isplit_validation [of "PStr ''lorem ipsum''" "PStr []" PNone]
        isplit_validation [of "PStr ''lorem ipsum''" "PStr '',''" "PInt 2"]
  by simp

text \<open>
  The order of the checks shows on \<open>isplit(100500, '')\<close>: the empty separator is never
  looked at, and the first pull raises \<open>TypeError\<close>.
\<close>

theorem isplit_validation_order:
  "first_pull (isplit (PInt 100500) (PStr []) PNone) = Inr (Raised TypeError)
   \<and> first_pull (isplit (PInt 100500) (PStr []) PNone) \<noteq> Inr (Raised ValueError)"
  by (simp add: isplit_def isplit_body_def first_pull_def isinstance_def string_types_def)


lemma split_ws_word:
  assumes "\<forall>c \<in> set w. \<not> isspace c" and "w \<noteq> []"
  shows "split_ws l (w @ rest) =
    (if l = Some 0 then [w @ rest]
     else (w @ takeWhile (\<lambda>x. \<not> isspace x) rest)
            # split_ws (fewer l) (dropWhile (\<lambda>x. \<not> isspace x) rest))"
proof (cases w)
  case Nil
  with assms show ?thesis by simp
next
  case (Cons c w')
  with assms have "\<forall>x \<in> set w'. \<not> isspace x" and "\<not> isspace c" by simp_all
  then show ?thesis unfolding Cons by (simp)
qed

lemma remaining_zero: "0 \<le> k \<Longrightarrow> m < 0 \<or> k \<le> m \<Longrightarrow> (remaining m k = Some 0) = (k = m)"
  by (auto simp: remaining_def)

lemma remaining_fewer: "0 \<le> k \<Longrightarrow> m < 0 \<or> k < m \<Longrightarrow> fewer (remaining m k) = remaining m (k + 1)"
  by (auto simp: remaining_def nat_diff_distrib')

lemma ws_loop_split:
  "\<forall>c \<in> set acc. \<not> isspace c \<Longrightarrow> 0 \<le> k \<Longrightarrow> m < 0 \<or> k \<le> m \<Longrightarrow>
     ws_loop m acc k rest = split_ws (remaining m k) (acc @ rest)"
proof (induction rest arbitrary: acc k)
  case Nil
  then show ?case
    using split_ws_word [of acc "remaining m k" "[]"] by (cases "acc = []") simp_all
next
  case (Cons c rest)
  show ?case
  proof (cases "isspace c")
    case False
    with Cons.prems have "ws_loop m (acc @ [c]) k rest = split_ws (remaining m k) ((acc @ [c]) @ rest)"
      by (intro Cons.IH) auto
    with False show ?thesis by simp
  next
    case True
    show ?thesis
    proof (cases "acc = []")
      case True
      with \<open>isspace c\<close> Cons.IH [of "[]" k] Cons.prems show ?thesis by simp
    next
      case False
      note word = split_ws_word [OF Cons.prems(1) False, of "remaining m k" "c # rest"]
      show ?thesis
      proof (cases "k = m")
        case True
        with Cons.prems have "remaining m k = Some 0" by (simp add: remaining_zero)
        with word True False \<open>isspace c\<close> show ?thesis by simp
      next
        case ne: False
        with Cons.prems have nz: "remaining m k \<noteq> Some 0" by (simp add: remaining_zero)
        from ne Cons.prems have "m < 0 \<or> k < m" by auto
        with Cons.prems have f: "fewer (remaining m k) = remaining m (k + 1)"
          by (simp add: remaining_fewer)
        from ne Cons.prems have "ws_loop m [] (k + 1) rest = split_ws (remaining m (k + 1)) ([] @ rest)"
          by (intro Cons.IH) auto
        with word nz f ne False \<open>isspace c\<close> show ?thesis by simp
      qed
    qed
  qed
qed

lemma find_sep_snoc_none:
  "find_sep sep x = None \<Longrightarrow> \<not> suffix sep (x @ [c]) \<Longrightarrow> find_sep sep (x @ [c]) = None"
proof (induction x)
  case Nil
  then show ?case by (auto simp: prefix_Cons suffix_Cons split: if_splits)
next
  case (Cons a x)
  from Cons.prems(1) have np: "\<not> prefix sep (a # x)" and none: "find_sep sep x = None"
    by (auto split: if_splits)
  from Cons.prems(2) have ns: "\<not> suffix sep (x @ [c])"
    by (simp add: suffix_Cons)
  have "\<not> prefix sep (a # x @ [c])"
  proof
    assume "prefix sep (a # x @ [c])"
    then have "prefix sep ((a # x) @ [c])" by simp
    then have "prefix sep (a # x) \<or> sep = (a # x) @ [c]" unfolding prefix_snoc by blast
    with np Cons.prems(2) show False by auto
  qed
  with Cons.IH [OF none ns] show ?case by simp
qed

lemma find_sep_snoc_some:
  "sep \<noteq> [] \<Longrightarrow> find_sep sep x = None \<Longrightarrow> x @ [c] = b @ sep \<Longrightarrow>
     find_sep sep (b @ sep @ r) = Some (b, r)"
proof (induction b arbitrary: x)
  case Nil
  then show ?case by (cases sep) simp_all
next
  case (Cons a b)
  from Cons.prems(1,3) obtain x' where x: "x = a # x'" and x': "x' @ [c] = b @ sep"
    by (cases x) auto
  from Cons.prems(2) x have np: "\<not> prefix sep (a # x')" and none: "find_sep sep x' = None"
    by (auto split: if_splits)
  have "\<not> prefix sep (a # b @ sep @ r)"
  proof
    assume p: "prefix sep (a # b @ sep @ r)"
    have "length sep \<le> length (a # x')"
      using arg_cong [OF x', of length] by simp
    moreover have "a # b @ sep @ r = (a # x') @ c # r"
      using x' by (metis append.assoc append_Cons append_Nil)
    ultimately have "prefix sep (a # x')"
      using p by (metis prefix_length_prefix prefixI)
    with np show False ..
  qed
  with Cons.IH [OF Cons.prems(1) none x'] show ?case by simp
qed

lemma suffix_same_length: "suffix a (p @ b) \<Longrightarrow> length a = length b \<Longrightarrow> a = b"
  by (auto simp: suffix_def append_eq_append_conv)

lemma window_is_sep:
  assumes "length w2 = min (length (ch1 @ w2)) (length sep)"
  shows "(w2 = sep) = suffix sep (ch1 @ w2)"
proof
  assume "w2 = sep"
  then show "suffix sep (ch1 @ w2)" by (simp add: suffix_def)
next
  assume s: "suffix sep (ch1 @ w2)"
  then have "length sep \<le> length (ch1 @ w2)" by (rule suffix_length_le)
  with assms have "length sep = length w2" by simp
  with s show "w2 = sep" using suffix_same_length by metis
qed

lemma sep_body_shape:
  assumes sep: "sep \<noteq> []"
    and inv: "length (deque st) = min (length (chunk st @ deque st)) (length sep)"
  shows "\<exists>ch1 w2.
      ch1 @ w2 = chunk st @ deque st @ [c]
    \<and> length w2 = min (length (ch1 @ w2)) (length sep)
    \<and> sep_body sep m c st =
        (if w2 = sep then
           (if splitcount st = m
            then (None, st\<lparr>deque := w2, chunk := ch1, rebound := Some (w2 @ it st), it := []\<rparr>)
            else (Some ch1, st\<lparr>deque := [], chunk := [], splitcount := splitcount st + 1\<rparr>))
         else (None, st\<lparr>deque := w2, chunk := ch1\<rparr>))"
proof (cases "length (deque st) = length sep")
  case True
  show ?thesis
  proof (cases "deque st")
    case Nil
    with True sep show ?thesis by simp
  next
    case (Cons a w')
    with True show ?thesis
      by (intro exI [of _ "chunk st @ [a]"] exI [of _ "w' @ [c]"])
         (auto simp: sep_body_def deque_append_def Let_def)
  qed
next
  case False
  with inv have lt: "length (deque st) < length sep" and e: "chunk st = []"
    by (auto simp: min_def split: if_splits)
  then show ?thesis
    by (intro exI [of _ "[]"] exI [of _ "deque st @ [c]"])
       (auto simp: sep_body_def deque_append_def Let_def)
qed

lemma sep_loop_split:
  "sep \<noteq> [] \<Longrightarrow> scan_inv sep st \<Longrightarrow> 0 \<le> splitcount st \<Longrightarrow> m < 0 \<or> splitcount st \<le> m \<Longrightarrow>
     sep_loop sep m st =
       split_sep (remaining m (splitcount st)) sep (chunk st @ window st @ it st)"
proof (induction "length (it st)" arbitrary: st rule: less_induct)
  case less
  note sep = \<open>sep \<noteq> []\<close>
  from less.prems have bound: "rebound st = None"
    and inv: "length (deque st) = min (length (chunk st @ deque st)) (length sep)"
    and none: "find_sep sep (chunk st @ deque st) = None"
    by (simp_all add: scan_inv_def)
  from bound have win: "window st = deque st" by (simp add: window_def)
  show ?case
  proof (cases "it st")
    case Nil
    with none sep show ?thesis
      by (simp add: sep_loop_end win split_sep.simps [of _ sep "chunk st @ deque st"])
  next
    case (Cons c rest)
    let ?st = "st\<lparr>it := rest\<rparr>"
    let ?x = "chunk st @ deque st"
    from inv have "length (deque ?st) = min (length (chunk ?st @ deque ?st)) (length sep)"
      by simp
    from sep_body_shape [OF sep this, of c m]
    obtain ch1 w2 where cat0: "ch1 @ w2 = chunk ?st @ deque ?st @ [c]"
      and len: "length w2 = min (length (ch1 @ w2)) (length sep)"
      and body0: "sep_body sep m c ?st =
        (if w2 = sep then
           (if splitcount ?st = m
            then (None, ?st\<lparr>deque := w2, chunk := ch1, rebound := Some (w2 @ it ?st), it := []\<rparr>)
            else (Some ch1, ?st\<lparr>deque := [], chunk := [], splitcount := splitcount ?st + 1\<rparr>))
         else (None, ?st\<lparr>deque := w2, chunk := ch1\<rparr>))"
      by blast
    from cat0 have cat: "ch1 @ w2 = ?x @ [c]" by simp
    from body0 have body: "sep_body sep m c ?st =
        (if w2 = sep then
           (if splitcount st = m
            then (None, ?st\<lparr>deque := w2, chunk := ch1, rebound := Some (w2 @ rest), it := []\<rparr>)
            else (Some ch1, ?st\<lparr>deque := [], chunk := [], splitcount := splitcount st + 1\<rparr>))
         else (None, ?st\<lparr>deque := w2, chunk := ch1\<rparr>))"
      by simp
    have whole: "chunk st @ window st @ it st = ch1 @ w2 @ rest"
      using cat Cons win by (metis append.assoc append_Cons append_Nil)
    show ?thesis
    proof (cases "w2 = sep")
      case True
      have found: "find_sep sep (ch1 @ sep @ rest) = Some (ch1, rest)"
        using find_sep_snoc_some [OF sep none, of c ch1 rest] cat True by simp
      show ?thesis
      proof (cases "splitcount st = m")
        case lim: True
        with less.prems have "remaining m (splitcount st) = Some 0"
          by (simp add: remaining_zero)
        moreover have "sep_loop sep m st = [ch1 @ sep @ rest]"
          using Cons body True lim
          by (simp add: sep_loop.simps [of sep m st] sep_loop_end window_def)
        ultimately show ?thesis
          using whole True by (simp add: split_sep.simps [of "Some 0"])
      next
        case nolim: False
        let ?st' = "?st\<lparr>deque := [], chunk := [], splitcount := splitcount st + 1\<rparr>"
        from nolim less.prems have nz: "remaining m (splitcount st) \<noteq> Some 0"
          by (simp add: remaining_zero)
        from nolim less.prems have "m < 0 \<or> splitcount st < m" by auto
        with less.prems have f: "fewer (remaining m (splitcount st)) = remaining m (splitcount st + 1)"
          by (simp add: remaining_fewer)
        have "sep_loop sep m ?st' =
            split_sep (remaining m (splitcount ?st')) sep (chunk ?st' @ window ?st' @ it ?st')"
          using less.prems nolim Cons bound
          by (intro less.hyps) (auto simp: scan_inv_def)
        then have ih: "sep_loop sep m ?st' = split_sep (remaining m (splitcount st + 1)) sep rest"
          using bound by (simp add: window_def)
        have "sep_loop sep m st = ch1 # sep_loop sep m ?st'"
          using Cons body True nolim by (simp add: sep_loop.simps [of sep m st])
        moreover have "split_sep (remaining m (splitcount st)) sep (ch1 @ sep @ rest) =
            ch1 # split_sep (remaining m (splitcount st + 1)) sep rest"
          using found nz f sep
          by (simp add: split_sep.simps [of "remaining m (splitcount st)" sep "ch1 @ sep @ rest"])
        ultimately show ?thesis
          using ih whole True by simp
      qed
    next
      case False
      let ?st' = "?st\<lparr>deque := w2, chunk := ch1\<rparr>"
      from False window_is_sep [OF len] have "\<not> suffix sep (ch1 @ w2)"
        by blast
      then have "\<not> suffix sep (?x @ [c])" using cat by simp
      from find_sep_snoc_none [OF none this] have "find_sep sep (ch1 @ w2) = None"
        using cat by simp
      with len bound have "scan_inv sep ?st'" unfolding scan_inv_def by simp
      then have "sep_loop sep m ?st' =
          split_sep (remaining m (splitcount ?st')) sep (chunk ?st' @ window ?st' @ it ?st')"
        using less.prems Cons by (intro less.hyps) auto
      then have "sep_loop sep m ?st' =
          split_sep (remaining m (splitcount st)) sep (ch1 @ w2 @ rest)"
        using bound by (simp add: window_def)
      moreover have "sep_loop sep m st = sep_loop sep m ?st'"
        using Cons body False by (simp add: sep_loop.simps [of sep m st])
      ultimately show ?thesis
        using whole by simp
    qed
  qed
qed

text \<open>
  C1. For every text, every separator that is absent or not empty and every limit that
  is absent or an integer, \<open>isplit\<close> yields the fields of the eager \<open>str.split\<close> with the
  same arguments, in the same order, and then ends. The two examples with the separator
  \<open>aa\<close> are instances.
\<close>

theorem isplit_is_str_split:
  "(sep \<noteq> Some [] \<longrightarrow>
      isplit (PStr t) (opt_str sep) (opt_int maxsplit) = Generator (str_split t sep maxsplit, None))
   \<and> isplit (PStr ''aaaaa'') (PStr ''aa'') PNone = Generator ([[], [], ''a''], None)
   \<and> isplit (PStr ''aaaaa'') (PStr ''aa'') (PInt 1) = Generator ([[], ''aaa''], None)"
proof (intro conjI impI)
  assume ne: "sep \<noteq> Some []"
  define m where "m = (case maxsplit of None \<Rightarrow> - 1 | Some n \<Rightarrow> n)"
  have lim: "remaining m 0 =
      (case maxsplit of None \<Rightarrow> None | Some n \<Rightarrow> if n < 0 then None else Some (nat n))"
    by (cases maxsplit) (simp_all add: m_def remaining_def)
  have range: "m < 0 \<or> 0 \<le> m" by auto
  show "isplit (PStr t) (opt_str sep) (opt_int maxsplit) = Generator (str_split t sep maxsplit, None)"
  proof (cases sep)
    case None
    have "ws_loop m [] 0 t = split_ws (remaining m 0) ([] @ t)"
      using range by (intro ws_loop_split) simp_all
    with None lim show ?thesis
      by (cases maxsplit)
         (simp_all add: isplit_def isplit_body_def str_split_def isinstance_def string_types_def
            integer_types_def m_def Let_def)
  next
    case (Some d)
    with ne have d: "d \<noteq> []" by simp
    have "scan_inv d (scan_init t)" by (simp add: scan_inv_def scan_init_def)
    from sep_loop_split [OF d this, of m] range
    have "sep_loop d m (scan_init t) = split_sep (remaining m 0) d t"
      by (simp add: scan_init_def window_def)
    with Some d lim show ?thesis
      by (cases maxsplit)
         (simp_all add: isplit_def isplit_body_def str_split_def isinstance_def string_types_def
            integer_types_def m_def Let_def)
  qed
next
  show "isplit (PStr ''aaaaa'') (PStr ''aa'') PNone = Generator ([[], [], ''a''], None)"
    by (simp add: isplit_def isplit_body_def isinstance_def string_types_def scan_init_def
          sep_loop.simps sep_body_def deque_append_def window_def Let_def)
next
  show "isplit (PStr ''aaaaa'') (PStr ''aa'') (PInt 1) = Generator ([[], ''aaa''], None)"
    by (simp add: isplit_def isplit_body_def isinstance_def string_types_def integer_types_def
          scan_init_def sep_loop.simps sep_body_def deque_append_def window_def Let_def)
qed

theorem isplit_is_str_split_witness:
  "Some '','' \<noteq> Some []
   \<and> isplit (PStr ''a,b,,c'') (PStr '','') (PInt 2) = Generator ([''a'', ''b'', '',c''], None)
   \<and> str_split ''a,b,,c'' (Some '','') (Some 2) = [''a'', ''b'', '',c'']"
proof -
  have "str_split ''a,b,,c'' (Some '','') (Some 2) = [''a'', ''b'', '',c'']"
    by (simp add: str_split_def split_sep.simps Let_def)
  with isplit_is_str_split [of "Some '',''" "''a,b,,c''" "Some 2"] show ?thesis by simp
qed

lemma sep_states_deque:
  "sep \<noteq> [] \<Longrightarrow> rebound st0 = None \<Longrightarrow>
   length (deque st0) = min (length (chunk st0 @ deque st0)) (length sep) \<Longrightarrow>
   st \<in> set (sep_states sep m st0) \<Longrightarrow>
     length (deque st) = min (length (chunk st @ deque st)) (length sep)
     \<and> (it st \<noteq> [] \<longrightarrow> rebound st = None)"
proof (induction "length (it st0)" arbitrary: st0 rule: less_induct)
  case less
  note sep = \<open>sep \<noteq> []\<close>
  show ?case
  proof (cases "it st0")
    case Nil
    with less.prems show ?thesis by (simp add: sep_states_end)
  next
    case (Cons c rest)
    let ?st = "st0\<lparr>it := rest\<rparr>"
    obtain y st' where b: "sep_body sep m c ?st = (y, st')"
      by (cases "sep_body sep m c ?st")
    have states: "sep_states sep m st0 = st0 # sep_states sep m st'"
      using Cons b by (simp add: sep_states.simps [of sep m st0])
    have shorter: "length (it st') < length (it st0)"
      using sep_body_it [OF b] Cons by simp
    from less.prems(3) have "length (deque ?st) = min (length (chunk ?st @ deque ?st)) (length sep)"
      by simp
    from sep_body_shape [OF sep this, of c m]
    obtain ch1 w2 where len: "length w2 = min (length (ch1 @ w2)) (length sep)"
      and body: "sep_body sep m c ?st =
        (if w2 = sep then
           (if splitcount ?st = m
            then (None, ?st\<lparr>deque := w2, chunk := ch1, rebound := Some (w2 @ it ?st), it := []\<rparr>)
            else (Some ch1, ?st\<lparr>deque := [], chunk := [], splitcount := splitcount ?st + 1\<rparr>))
         else (None, ?st\<lparr>deque := w2, chunk := ch1\<rparr>))"
      by blast
    show ?thesis
    proof (cases "st = st0")
      case True
      with less.prems show ?thesis by simp
    next
      case False
      with less.prems(4) states have mem: "st \<in> set (sep_states sep m st')" by simp
      show ?thesis
      proof (cases "w2 = sep \<and> splitcount st0 = m")
        case True
        with body b have end': "it st' = []" and d: "deque st' = w2" and ch: "chunk st' = ch1"
          by auto
        from end' mem have "st = st'" by (simp add: sep_states_end)
        with end' d ch len show ?thesis by metis
      next
        case False
        have d: "length (deque st') = min (length (chunk st' @ deque st')) (length sep)"
        proof (cases "w2 = sep")
          case True
          with False body b show ?thesis by auto
        next
          case ne: False
          with body b have "deque st' = w2" "chunk st' = ch1" by auto
          with len show ?thesis by metis
        qed
        have r: "rebound st' = None"
          using False body b less.prems(2) by (auto split: if_splits)
        from less.hyps [OF shorter sep r d mem] show ?thesis .
      qed
    qed
  qed
qed

lemma sep_body_evict:
  assumes sep: "sep \<noteq> []"
    and inv: "length (deque st) = min (length (chunk st @ deque st)) (length sep)"
  shows "deque_append (length sep + 1) (deque st) c = deque st @ [c]
    \<and> (case sep_body sep m c st of
         (y, st') \<Rightarrow> (case y of Some field \<Rightarrow> field | None \<Rightarrow> chunk st')) =
        (if length (deque st) = length sep then chunk st @ [hd (deque st)] else chunk st)"
proof (cases "length (deque st) = length sep")
  case True
  with sep obtain a w' where "deque st = a # w'" by (cases "deque st") auto
  with True show ?thesis
    by (auto simp: sep_body_def deque_append_def Let_def)
next
  case False
  with inv have "length (deque st) < length sep"
    by (auto simp: min_def split: if_splits)
  then show ?thesis
    by (auto simp: sep_body_def deque_append_def Let_def)
qed

text \<open>
  C8. In the separator mode, in every state of the scan (at the head of each pass and at
  the end) the deque that is the separator window holds at most \<open>len(sep)\<close> characters. At
  the head of a pass the name \<open>window\<close> is bound to that deque; the \<open>append\<close> of line 288
  discards nothing and brings the deque to at most \<open>len(sep) + 1\<close> characters, its
  \<open>maxlen\<close>; and when it reaches that bound, the character taken from its front is appended
  to the accumulator, which the pass then yields or keeps.
\<close>

theorem sep_window_bound:
  assumes "sep \<noteq> []" and "st \<in> set (sep_states sep m (scan_init t))"
  shows "length (deque st) \<le> length sep
       \<and> (\<forall>c rest. it st = c # rest \<longrightarrow>
            rebound st = None \<and> window st = deque st
          \<and> deque_append (length sep + 1) (deque st) c = deque st @ [c]
          \<and> length (deque_append (length sep + 1) (deque st) c) \<le> length sep + 1
          \<and> (case sep_body sep m c (st\<lparr>it := rest\<rparr>) of
                (y, st') \<Rightarrow> (case y of Some field \<Rightarrow> field | None \<Rightarrow> chunk st')) =
              (if length (deque st) = length sep then chunk st @ [hd (deque st)]
               else chunk st))"
proof -
  have "rebound (scan_init t) = None"
    and "length (deque (scan_init t)) =
      min (length (chunk (scan_init t) @ deque (scan_init t))) (length sep)"
    by (simp_all add: scan_init_def)
  from sep_states_deque [OF assms(1) this assms(2)]
  have inv: "length (deque st) = min (length (chunk st @ deque st)) (length sep)"
    and bound: "it st \<noteq> [] \<longrightarrow> rebound st = None"
    by blast+
  from inv have le: "length (deque st) \<le> length sep"
    by linarith
  have pass: "rebound st = None \<and> window st = deque st
          \<and> deque_append (length sep + 1) (deque st) c = deque st @ [c]
          \<and> length (deque_append (length sep + 1) (deque st) c) \<le> length sep + 1
          \<and> (case sep_body sep m c (st\<lparr>it := rest\<rparr>) of
                (y, st') \<Rightarrow> (case y of Some field \<Rightarrow> field | None \<Rightarrow> chunk st')) =
              (if length (deque st) = length sep then chunk st @ [hd (deque st)]
               else chunk st)"
    if more: "it st = c # rest" for c rest
  proof -
    from bound more have r: "rebound st = None" by simp
    from inv have "length (deque (st\<lparr>it := rest\<rparr>)) =
        min (length (chunk (st\<lparr>it := rest\<rparr>) @ deque (st\<lparr>it := rest\<rparr>))) (length sep)"
      by simp
    from sep_body_evict [OF assms(1) this, of c m] r le show ?thesis
      by (simp add: window_def)
  qed
  from le pass show ?thesis by blast
qed

theorem sep_window_bound_witness:
  "''ab'' \<noteq> []
   \<and> \<lparr>deque = ''xa'', rebound = None, chunk = [], splitcount = 0, it = ''b''\<rparr>
        \<in> set (sep_states ''ab'' (- 1) (scan_init ''xab''))
   \<and> deque_append (length ''ab'' + 1) ''xa'' CHR ''b'' = ''xab''
   \<and> (case sep_body ''ab'' (- 1) CHR ''b''
              \<lparr>deque = ''xa'', rebound = None, chunk = [], splitcount = 0, it = []\<rparr> of
        (y, st') \<Rightarrow> (case y of Some field \<Rightarrow> field | None \<Rightarrow> chunk st')) = ''x''"
proof -
  have mem: "\<lparr>deque = ''xa'', rebound = None, chunk = [], splitcount = 0, it = ''b''\<rparr>
        \<in> set (sep_states ''ab'' (- 1) (scan_init ''xab''))"
    by (simp add: sep_states.simps scan_init_def sep_body_def deque_append_def Let_def)
  have "''ab'' \<noteq> []" by simp
  from sep_window_bound [OF this mem] mem show ?thesis by simp
qed

text \<open>
  The scan of \<open>isplit('aaaa', 'a', 0)\<close>: the first character is a match with the limit
  reached. Line 294 binds the name \<open>window\<close> to a tuple of the four characters, which the
  \<open>else\<close> clause appends to the accumulator; the deque still holds the one character of
  the match.
\<close>

lemma window_rebound_example:
  "rebound (last (sep_states ''a'' 0 (scan_init ''aaaa''))) = Some ''aaaa''
   \<and> deque (last (sep_states ''a'' 0 (scan_init ''aaaa''))) = ''a''
   \<and> isplit (PStr ''aaaa'') (PStr ''a'') (PInt 0) = Generator ([''aaaa''], None)"
  by (simp add: sep_states.simps sep_loop.simps scan_init_def sep_body_def deque_append_def
        window_def isplit_def isplit_body_def isinstance_def string_types_def integer_types_def
        Let_def)


end
